theory Spec2Isabelle
  imports Main
begin

section \<open>Python strings\<close>

text \<open>
  A Python \<open>str\<close> is a sequence of Unicode code points; a code point is modelled as a
  natural number and a string as a list of them. \<open>py_str\<close> turns an (ASCII) literal of
  the theory into such a list.
\<close>

type_synonym pystr = "nat list"

definition py_str :: "string \<Rightarrow> pystr" where
  "py_str s = map of_char s"

text \<open>The apostrophe, which a literal of the theory cannot hold twice in a row.\<close>

definition sq :: pystr where
  "sq = [39]"

section \<open>Character categories of the \<open>re\<close> module\<close>

text \<open>
  For \<open>str\<close> patterns \<open>\s\<close> is \<open>str.isspace\<close> and \<open>\w\<close> is \<open>str.isalnum\<close> or the
  underscore. Below 128 both are fixed tables, written out here; from 128 on they
  are read from the Unicode character database, which is taken as a parameter.
\<close>

record ucd =
  uni_space :: "nat \<Rightarrow> bool"
  uni_alnum :: "nat \<Rightarrow> bool"

definition is_space :: "ucd \<Rightarrow> nat \<Rightarrow> bool" where
  "is_space U c =
     (if c < 128 then (9 \<le> c \<and> c \<le> 13) \<or> (28 \<le> c \<and> c \<le> 32) else uni_space U c)"

definition is_alnum :: "ucd \<Rightarrow> nat \<Rightarrow> bool" where
  "is_alnum U c =
     (if c < 128 then (48 \<le> c \<and> c \<le> 57) \<or> (65 \<le> c \<and> c \<le> 90) \<or> (97 \<le> c \<and> c \<le> 122)
      else uni_alnum U c)"

definition is_word :: "ucd \<Rightarrow> nat \<Rightarrow> bool" where
  "is_word U c = (is_alnum U c \<or> c = 95)"

section \<open>Patterns\<close>

text \<open>
  The character sets the two patterns of the script repeat. \<open>Any\<close> is the dot
  without \<open>DOTALL\<close>: every character but the line feed. \<open>Not_Literal a\<close> is the
  negated one-character set, such as \<open>[^)]\<close>, and takes the line feed too. \<open>Space\<close>
  is \<open>\s\<close> and \<open>Word\<close> is \<open>\w\<close>.
\<close>

datatype cset = Not_Literal nat | Any | Space | Word

fun cs_mem :: "ucd \<Rightarrow> cset \<Rightarrow> nat \<Rightarrow> bool" where
  "cs_mem U (Not_Literal a) c = (c \<noteq> a)"
| "cs_mem U Any c = (c \<noteq> 10)"
| "cs_mem U Space c = is_space U c"
| "cs_mem U Word c = is_word U c"

text \<open>
  The items of a compiled pattern: \<open>Lits w\<close> is a run of literal characters,
  \<open>Max_Repeat n cs\<close> the greedy repetition of a character set, \<open>n\<close> times or more
  (\<open>*\<close> is \<open>n = 0\<close>, \<open>+\<close> is \<open>n = 1\<close>), \<open>Seq\<close> one item after another, \<open>Branch\<close> the
  alternation \<open>|\<close> and \<open>Subpattern k\<close> the capturing group number \<open>k\<close>.
\<close>

datatype rx =
    Lits pystr
  | Max_Repeat nat cset
  | Seq rx rx
  | Branch rx rx
  | Subpattern nat rx

text \<open>A pattern is a sequence of items, matched from left to right.\<close>

fun seqs :: "rx list \<Rightarrow> rx" where
  "seqs [] = Lits []"
| "seqs [r] = r"
| "seqs (r # rs) = Seq r (seqs rs)"

type_synonym marks = "nat \<rightharpoonup> pystr"
type_synonym mstate = "pystr \<times> marks"

text \<open>
  The backtracking matcher: from the text that is left and the groups captured so
  far, every way the pattern can match, in the order the engine tries them, each
  with the text left after it and the groups it captured. A greedy repetition
  counts the longest run of the set, takes all of it first and gives characters
  back one at a time, down to its minimum; an alternation tries its left branch
  first; a group records the text its body went over.
\<close>

fun rx_match :: "ucd \<Rightarrow> rx \<Rightarrow> mstate \<Rightarrow> mstate list" where
  "rx_match U (Lits w) (s, g) =
     (if take (length w) s = w then [(drop (length w) s, g)] else [])"
| "rx_match U (Max_Repeat mn cs) (s, g) =
     map (\<lambda>k. (drop k s, g)) (rev [mn ..< Suc (length (takeWhile (cs_mem U cs) s))])"
| "rx_match U (Seq a b) st = concat (map (rx_match U b) (rx_match U a st))"
| "rx_match U (Branch a b) st = rx_match U a st @ rx_match U b st"
| "rx_match U (Subpattern n r) (s, g) =
     map (\<lambda>(s', g'). (s', g'(n \<mapsto> take (length s - length s') s))) (rx_match U r (s, g))"

text \<open>The number of groups of a pattern (\<open>re.Pattern.groups\<close>).\<close>

fun groups :: "rx \<Rightarrow> nat" where
  "groups (Seq a b) = max (groups a) (groups b)"
| "groups (Branch a b) = max (groups a) (groups b)"
| "groups (Subpattern n r) = max n (groups r)"
| "groups _ = 0"

section \<open>Match objects, \<open>re.match\<close> and \<open>re.search\<close>\<close>

text \<open>
  A match object: the text of the whole match, the texts of the groups that took
  part in it, and the number of groups of its pattern. \<open>first_match\<close> is the first
  way the pattern matches at the start of a text, if there is one.
\<close>

record match_obj =
  whole :: pystr
  captured :: marks
  ngroups :: nat

definition first_match :: "ucd \<Rightarrow> rx \<Rightarrow> pystr \<Rightarrow> match_obj option" where
  "first_match U r s =
     (case rx_match U r (s, Map.empty) of
        [] \<Rightarrow> None
      | (s', g) # _ \<Rightarrow>
          Some \<lparr>whole = take (length s - length s') s, captured = g, ngroups = groups r\<rparr>)"

text \<open>\<open>re.match\<close>: the pattern has to match at position zero.\<close>

definition re_match :: "ucd \<Rightarrow> rx \<Rightarrow> pystr \<Rightarrow> match_obj option" where
  "re_match U r s = first_match U r s"

text \<open>\<open>re.search\<close>: the first position, from zero to the end of the text, where it matches.\<close>

fun re_search :: "ucd \<Rightarrow> rx \<Rightarrow> pystr \<Rightarrow> match_obj option" where
  "re_search U r [] = first_match U r []"
| "re_search U r (c # t) =
     (case first_match U r (c # t) of Some m \<Rightarrow> Some m | None \<Rightarrow> re_search U r t)"

datatype py_error = IndexError

text \<open>
  \<open>match.group(k)\<close>: the whole match for 0, the text of group \<open>k\<close> (or \<open>None\<close> when the
  group took no part in the match), and \<open>IndexError\<close> for a group the pattern does
  not have.
\<close>

definition group :: "match_obj \<Rightarrow> nat \<Rightarrow> py_error + pystr option" where
  "group m k =
     (if k = 0 then Inr (Some (whole m))
      else if k \<le> ngroups m then Inr (captured m k)
      else Inl IndexError)"

section \<open>The script\<close>

text \<open>
  The two texts and the two patterns of \<^verbatim>\<open>debug_regex.py\<close>, under the names the
  script gives them; its \<^verbatim>\<open>text\<close> is \<open>text_py\<close> here.
  \<^verbatim>\<open>text = "for (var char in 'hello'.split('')) {}"\<close>
\<close>

definition text_py :: pystr where
  "text_py = py_str ''for (var char in 'hello'.split('' @ sq @ sq @ py_str '')) {}''"

text \<open>\<^verbatim>\<open>pattern = r"for\s*\(\s*(var|final)\s+(\w+)\s+in\s+([^)]+)\)"\<close>\<close>

definition pattern :: rx where
  "pattern = seqs
     [Lits (py_str ''for''), Max_Repeat 0 Space, Lits (py_str ''(''), Max_Repeat 0 Space,
      Subpattern 1 (Branch (Lits (py_str ''var'')) (Lits (py_str ''final''))),
      Max_Repeat 1 Space,
      Subpattern 2 (Max_Repeat 1 Word),
      Max_Repeat 1 Space, Lits (py_str ''in''), Max_Repeat 1 Space,
      Subpattern 3 (Max_Repeat 1 (Not_Literal 41)),
      Lits (py_str '')'')]"

text \<open>\<^verbatim>\<open>iterable_text = "'hello'.split('')"\<close>\<close>

definition iterable_text :: pystr where
  "iterable_text = sq @ py_str ''hello'.split('' @ sq @ sq @ py_str '')''"

text \<open>\<^verbatim>\<open>split_pattern = r".+\.split\(.*\)"\<close>\<close>

definition split_pattern :: rx where
  "split_pattern = seqs
     [Max_Repeat 1 Any, Lits (py_str ''.split(''), Max_Repeat 0 Any, Lits (py_str '')'')]"

text \<open>
  What is printed, line by line. \<open>print\<close> adds one line: it gives the characters of
  the line, not their encoding to bytes, and it has no case for a stream that
  cannot encode a character (a lone surrogate, say), where Python raises
  \<open>UnicodeEncodeError\<close>. An f-string shows a group that is \<open>None\<close> as the word
  \<open>None\<close>.
\<close>

type_synonym stdout = "pystr list"

definition print :: "pystr \<Rightarrow> stdout \<Rightarrow> stdout" where
  "print line out = out @ [line]"

definition fstr :: "pystr option \<Rightarrow> pystr" where
  "fstr v = (case v of None \<Rightarrow> py_str ''None'' | Some s \<Rightarrow> s)"

definition then_do :: "'e + 'a \<Rightarrow> ('a \<Rightarrow> 'e + 'b) \<Rightarrow> 'e + 'b" where
  "then_do r f = (case r of Inl e \<Rightarrow> Inl e | Inr v \<Rightarrow> f v)"

text \<open>
  The first test, for any text in the place of the literal: \<open>re.search\<close>, then
  either the four lines of the match, each printed after its group is read, or the
  line of the \<open>else\<close> branch.
\<close>

definition report_foreach :: "ucd \<Rightarrow> pystr \<Rightarrow> stdout \<Rightarrow> py_error + stdout" where
  "report_foreach U txt out =
     (case re_search U pattern txt of
        Some match \<Rightarrow>
          then_do (group match 0) (\<lambda>g0.
          let out1 = print (py_str ''Full match: '' @ sq @ fstr g0 @ sq) out in
          then_do (group match 1) (\<lambda>g1.
          let out2 = print (py_str ''Keyword: '' @ sq @ fstr g1 @ sq) out1 in
          then_do (group match 2) (\<lambda>g2.
          let out3 = print (py_str ''Variable: '' @ sq @ fstr g2 @ sq) out2 in
          then_do (group match 3) (\<lambda>g3.
          Inr (print (py_str ''Iterable: '' @ sq @ fstr g3 @ sq) out3)))))
      | None \<Rightarrow> Inr (print (py_str ''No match found'') out))"

text \<open>
  The second test, for any text in the place of the literal: the result of
  \<open>re.match\<close> is only tested for being a match or \<open>None\<close>.
\<close>

definition report_split :: "ucd \<Rightarrow> pystr \<Rightarrow> stdout \<Rightarrow> py_error + stdout" where
  "report_split U itxt out =
     (if re_match U split_pattern itxt \<noteq> None
      then Inr (print (py_str ''Split pattern matches: '' @ sq @ itxt @ sq @
                       py_str '' -> should return String'') out)
      else Inr (print (py_str ''Split pattern doesn't match: '' @ sq @ itxt @ sq) out))"

text \<open>The first test, then the second, unless the first raised.\<close>

definition script :: "ucd \<Rightarrow> pystr \<Rightarrow> pystr \<Rightarrow> stdout \<Rightarrow> py_error + stdout" where
  "script U txt itxt out = then_do (report_foreach U txt out) (report_split U itxt)"

text \<open>The script as it stands, on its two literals.\<close>

definition debug_regex :: "ucd \<Rightarrow> stdout \<Rightarrow> py_error + stdout" where
  "debug_regex U out = script U text_py iterable_text out"

text \<open>A database with no whitespace and no letter or digit from 128 on.\<close>

definition ascii_ucd :: ucd where
  "ascii_ucd = \<lparr>uni_space = (\<lambda>c. False), uni_alnum = (\<lambda>c. False)\<rparr>"

section \<open>Properties of texts and of patterns\<close>

text \<open>\<open>starts_with w s\<close>: the text \<open>s\<close> begins with \<open>w\<close>.\<close>

definition starts_with :: "pystr \<Rightarrow> pystr \<Rightarrow> bool" where
  "starts_with w s = (take (length w) s = w)"

text \<open>The positions of \<open>s\<close>, in increasing order, at which an occurrence of \<open>w\<close> starts.\<close>

definition occurrences :: "pystr \<Rightarrow> pystr \<Rightarrow> nat list" where
  "occurrences w s = filter (\<lambda>i. starts_with w (drop i s)) [0 ..< Suc (length s)]"

text \<open>
  \<open>ws_in_here U t\<close>: \<open>t\<close> begins with whitespace, one character or more, and the
  token \<open>in\<close> right after it. \<open>ident_ws_in U s\<close>: somewhere in \<open>s\<close> a word character
  (the end of an identifier) stands right before such a place.
\<close>

definition ws_in_here :: "ucd \<Rightarrow> pystr \<Rightarrow> bool" where
  "ws_in_here U t =
     (takeWhile (is_space U) t \<noteq> [] \<and> starts_with (py_str ''in'') (dropWhile (is_space U) t))"

fun ident_ws_in :: "ucd \<Rightarrow> pystr \<Rightarrow> bool" where
  "ident_ws_in U [] = False"
| "ident_ws_in U (c # t) = ((is_word U c \<and> ws_in_here U t) \<or> ident_ws_in U t)"

text \<open>
  The texts a pattern can match, whatever the order of the attempts: the yardstick
  the matcher is measured against below.
\<close>

fun lang :: "ucd \<Rightarrow> rx \<Rightarrow> pystr set" where
  "lang U (Lits w) = {w}"
| "lang U (Max_Repeat mn cs) = {w. mn \<le> length w \<and> (\<forall>c\<in>set w. cs_mem U cs c)}"
| "lang U (Seq a b) = {u @ v | u v. u \<in> lang U a \<and> v \<in> lang U b}"
| "lang U (Branch a b) = lang U a \<union> lang U b"
| "lang U (Subpattern n r) = lang U r"

section \<open>Every match of the matcher is a word of the pattern\<close>

lemma take_run:
  assumes "k \<le> length (takeWhile P s)"
  shows "\<forall>c\<in>set (take k s). P c"
proof -
  have "take k (takeWhile P s @ dropWhile P s) = take k (takeWhile P s)"
    using assms by (simp del: takeWhile_dropWhile_id)
  then have "take k s = take k (takeWhile P s)" by simp
  then have "set (take k s) \<subseteq> set (takeWhile P s)" by (simp add: set_take_subset)
  then show ?thesis by (auto dest: set_takeWhileD)
qed

lemma run_le_length: "length (takeWhile P s) \<le> length s"
  by (rule length_takeWhile_le)

lemma rx_match_sound:
  "(s', g') \<in> set (rx_match U r (s, g)) \<Longrightarrow> \<exists>w. s = w @ s' \<and> w \<in> lang U r"
proof (induction r arbitrary: s g s' g')
  case (Lits w)
  then have "take (length w) s = w" and "s' = drop (length w) s"
    by (auto split: if_splits)
  then have "s = w @ s'" by (metis append_take_drop_id)
  then show ?case by simp
next
  case (Max_Repeat mn cs)
  then obtain k where k: "mn \<le> k" "k \<le> length (takeWhile (cs_mem U cs) s)" "s' = drop k s"
    by auto
  have "k \<le> length s" using k(2) run_le_length [of "cs_mem U cs" s] by linarith
  then have "length (take k s) = k" by simp
  moreover have "\<forall>c\<in>set (take k s). cs_mem U cs c" using k(2) by (rule take_run)
  moreover have "s = take k s @ s'" using k(3) by simp
  ultimately show ?case using k(1) by (intro exI [of _ "take k s"]) simp
next
  case (Seq a b)
  then obtain t h where 1: "(t, h) \<in> set (rx_match U a (s, g))"
    and 2: "(s', g') \<in> set (rx_match U b (t, h))" by auto
  from Seq.IH(1) [OF 1] obtain u where "s = u @ t" "u \<in> lang U a" by blast
  moreover from Seq.IH(2) [OF 2] obtain v where "t = v @ s'" "v \<in> lang U b" by blast
  ultimately show ?case by (intro exI [of _ "u @ v"]) auto
next
  case (Branch a b)
  then have "(s', g') \<in> set (rx_match U a (s, g)) \<or> (s', g') \<in> set (rx_match U b (s, g))"
    by simp
  then show ?case using Branch.IH by fastforce
next
  case (Subpattern n r)
  then obtain h where "(s', h) \<in> set (rx_match U r (s, g))" by auto
  from Subpattern.IH [OF this] show ?case by simp
qed

lemma first_match_SomeD:
  assumes "first_match U r s = Some m"
  shows "\<exists>w s'. s = w @ s' \<and> w \<in> lang U r \<and> whole m = w \<and> ngroups m = groups r
           \<and> (s', captured m) \<in> set (rx_match U r (s, Map.empty))"
proof -
  from assms obtain s' g' rest where rm: "rx_match U r (s, Map.empty) = (s', g') # rest"
    and m: "m = \<lparr>whole = take (length s - length s') s, captured = g', ngroups = groups r\<rparr>"
    by (auto simp: first_match_def split: list.splits)
  from rm have mem: "(s', g') \<in> set (rx_match U r (s, Map.empty))" by simp
  from rx_match_sound [OF mem] obtain w where w: "s = w @ s'" "w \<in> lang U r" by blast
  then have "take (length s - length s') s = w" by simp
  with m w mem show ?thesis by auto
qed

lemma re_search_SomeD:
  "re_search U r s = Some m \<Longrightarrow> \<exists>p t. s = p @ t \<and> first_match U r t = Some m"
proof (induction s)
  case Nil
  then show ?case by simp
next
  case (Cons c s)
  show ?case
  proof (cases "first_match U r (c # s)")
    case None
    with Cons.prems have "re_search U r s = Some m" by simp
    from Cons.IH [OF this] obtain p t where "s = p @ t" "first_match U r t = Some m" by blast
    then have "c # s = (c # p) @ t \<and> first_match U r t = Some m" by simp
    then show ?thesis by blast
  next
    case (Some m')
    with Cons.prems have "m' = m" by simp
    with Some have "c # s = [] @ (c # s) \<and> first_match U r (c # s) = Some m" by simp
    then show ?thesis by blast
  qed
qed

lemma re_search_NoneI:
  "(\<And>p t. s = p @ t \<Longrightarrow> first_match U r t = None) \<Longrightarrow> re_search U r s = None"
  by (metis re_search_SomeD option.exhaust)


section \<open>Occurrences of a text\<close>

lemma occurrencesI: "s = p @ w @ q \<Longrightarrow> length p \<in> set (occurrences w s)"
  by (simp add: occurrences_def starts_with_def del: upt_Suc)

lemma occurrencesD:
  assumes "i \<in> set (occurrences w s)"
  shows "\<exists>p q. s = p @ w @ q \<and> length p = i"
proof -
  from assms have i: "i \<le> length s" and w: "take (length w) (drop i s) = w"
    by (auto simp: occurrences_def starts_with_def simp del: upt_Suc)
  have "drop i s = w @ drop (length w) (drop i s)"
    using append_take_drop_id [of "length w" "drop i s"] w by simp
  then have "s = take i s @ w @ drop (length w) (drop i s)"
    using append_take_drop_id [of i s] by simp
  moreover have "length (take i s) = i" using i by simp
  ultimately show ?thesis by blast
qed

lemma occurrences_iff:
  "i \<in> set (occurrences w s) \<longleftrightarrow> (\<exists>p q. s = p @ w @ q \<and> length p = i)"
  using occurrencesI occurrencesD by blast

lemma lang_split_pattern:
  assumes "w \<in> lang U split_pattern"
  shows "\<exists>u v. w = u @ py_str ''.split('' @ v @ py_str '')'' \<and> u \<noteq> []"
  using assms by (auto simp: split_pattern_def)

lemma split_match_occurrence:
  assumes "re_match U split_pattern s = Some m"
  shows "\<exists>i. 0 < i \<and> i \<in> set (occurrences (py_str ''.split('') s)"
proof -
  from assms have "first_match U split_pattern s = Some m" by (simp add: re_match_def)
  from first_match_SomeD [OF this] obtain w s' where s: "s = w @ s'" and w: "w \<in> lang U split_pattern"
    by blast
  from lang_split_pattern [OF w] obtain u v
    where u: "w = u @ py_str ''.split('' @ v @ py_str '')''" "u \<noteq> []" by blast
  from s u(1) have "s = u @ py_str ''.split('' @ (v @ py_str '')'' @ s')" by simp
  then have "length u \<in> set (occurrences (py_str ''.split('') s)" by (rule occurrencesI)
  with u(2) show ?thesis by (intro exI [of _ "length u"]) simp
qed

section \<open>An identifier, whitespace and \<open>in\<close>\<close>

lemma ident_ws_in_append: "ident_ws_in U t \<Longrightarrow> ident_ws_in U (p @ t)"
  by (induction p) auto

lemma not_space_i: "\<not> is_space U 105"
  by (simp add: is_space_def)

lemma ws_in_hereI:
  assumes "sp \<noteq> []" and "\<forall>x\<in>set sp. is_space U x"
  shows "ws_in_here U (sp @ py_str ''in'' @ post)"
proof -
  have i: "py_str ''in'' @ post = 105 # 110 # post" by (simp add: py_str_def)
  have "takeWhile (is_space U) (sp @ 105 # 110 # post) = sp"
    using assms(2) not_space_i by (simp add: takeWhile_append2)
  moreover have "dropWhile (is_space U) (sp @ 105 # 110 # post) = 105 # 110 # post"
    using assms(2) not_space_i by (simp add: dropWhile_append2)
  ultimately show ?thesis using assms(1) i
    by (simp add: ws_in_here_def starts_with_def py_str_def)
qed

lemma ident_ws_inI:
  assumes "idn \<noteq> []" and "\<forall>c\<in>set idn. is_word U c" and "sp \<noteq> []" and "\<forall>x\<in>set sp. is_space U x"
  shows "ident_ws_in U (pre @ idn @ sp @ py_str ''in'' @ post)"
proof -
  from assms(1) obtain ys c where idn: "idn = ys @ [c]" by (metis rev_exhaust)
  with assms(2) have c: "is_word U c" by simp
  have "ident_ws_in U (c # sp @ py_str ''in'' @ post)"
    using c ws_in_hereI [OF assms(3,4)] by simp
  then have "ident_ws_in U ((pre @ ys) @ c # sp @ py_str ''in'' @ post)"
    by (rule ident_ws_in_append)
  then show ?thesis using idn by simp
qed

lemma ident_ws_inD:
  "ident_ws_in U s \<Longrightarrow>
     \<exists>pre idn sp post. s = pre @ idn @ sp @ py_str ''in'' @ post \<and> idn \<noteq> []
        \<and> (\<forall>c\<in>set idn. is_word U c) \<and> sp \<noteq> [] \<and> (\<forall>x\<in>set sp. is_space U x)"
proof (induction s)
  case Nil
  then show ?case by simp
next
  case (Cons c t)
  show ?case
  proof (cases "is_word U c \<and> ws_in_here U t")
    case True
    define sp where "sp = takeWhile (is_space U) t"
    define rest where "rest = dropWhile (is_space U) t"
    from True have sp: "sp \<noteq> []" and "take (length (py_str ''in'')) rest = py_str ''in''"
      by (simp_all add: ws_in_here_def starts_with_def sp_def rest_def)
    then have "rest = py_str ''in'' @ drop (length (py_str ''in'')) rest"
      by (metis append_take_drop_id)
    moreover have "t = sp @ rest" by (simp add: sp_def rest_def)
    ultimately have "c # t = [] @ [c] @ sp @ py_str ''in'' @ drop (length (py_str ''in'')) rest"
      by simp
    moreover have "\<forall>x\<in>set sp. is_space U x" by (auto simp: sp_def dest: set_takeWhileD)
    ultimately show ?thesis using True sp by (metis empty_iff empty_set list.distinct(1) set_ConsD)
  next
    case False
    with Cons.prems have "ident_ws_in U t" by auto
    from Cons.IH [OF this] obtain pre idn sp post where
      "t = pre @ idn @ sp @ py_str ''in'' @ post" "idn \<noteq> []"
      "\<forall>c\<in>set idn. is_word U c" "sp \<noteq> []" "\<forall>x\<in>set sp. is_space U x" by blast
    then have "c # t = (c # pre) @ idn @ sp @ py_str ''in'' @ post" by simp
    then show ?thesis
      using \<open>idn \<noteq> []\<close> \<open>\<forall>c\<in>set idn. is_word U c\<close> \<open>sp \<noteq> []\<close> \<open>\<forall>x\<in>set sp. is_space U x\<close>
      by blast
  qed
qed

lemma ident_ws_in_iff:
  "ident_ws_in U s \<longleftrightarrow>
     (\<exists>pre idn sp post. s = pre @ idn @ sp @ py_str ''in'' @ post \<and> idn \<noteq> []
        \<and> (\<forall>c\<in>set idn. is_word U c) \<and> sp \<noteq> [] \<and> (\<forall>x\<in>set sp. is_space U x))"
  using ident_ws_inI [of _ U] ident_ws_inD [of U s] by blast

lemma lang_patternE:
  assumes "w \<in> lang U pattern"
  obtains s1 s2 kw s3 idn s4 s5 it where
    "w = py_str ''for'' @ s1 @ py_str ''('' @ s2 @ kw @ s3 @ idn @ s4 @ py_str ''in'' @ s5 @ it @ py_str '')''"
    "\<forall>c\<in>set s1. is_space U c" "\<forall>c\<in>set s2. is_space U c"
    "kw = py_str ''var'' \<or> kw = py_str ''final''"
    "s3 \<noteq> []" "\<forall>c\<in>set s3. is_space U c"
    "idn \<noteq> []" "\<forall>c\<in>set idn. is_word U c"
    "s4 \<noteq> []" "\<forall>c\<in>set s4. is_space U c"
    "s5 \<noteq> []" "\<forall>c\<in>set s5. is_space U c"
    "it \<noteq> []" "41 \<notin> set it"
proof -
  from assms obtain s1 s2 kw s3 idn s4 s5 it where
    w: "w = py_str ''for'' @ s1 @ py_str ''('' @ s2 @ kw @ s3 @ idn @ s4 @ py_str ''in'' @ s5 @ it @ py_str '')''"
    and s1: "s1 \<in> lang U (Max_Repeat 0 Space)" and s2: "s2 \<in> lang U (Max_Repeat 0 Space)"
    and kw: "kw \<in> lang U (Branch (Lits (py_str ''var'')) (Lits (py_str ''final'')))"
    and s3: "s3 \<in> lang U (Max_Repeat 1 Space)" and idn: "idn \<in> lang U (Max_Repeat 1 Word)"
    and s4: "s4 \<in> lang U (Max_Repeat 1 Space)" and s5: "s5 \<in> lang U (Max_Repeat 1 Space)"
    and it: "it \<in> lang U (Max_Repeat 1 (Not_Literal 41))"
    unfolding pattern_def seqs.simps lang.simps(3) lang.simps(1) lang.simps(5) by blast
  show ?thesis
  proof (rule that [of s1 s2 kw s3 idn s4 s5 it])
    show "w = py_str ''for'' @ s1 @ py_str ''('' @ s2 @ kw @ s3 @ idn @ s4 @ py_str ''in'' @ s5 @ it @ py_str '')''"
      by (rule w)
    show "\<forall>c\<in>set s1. is_space U c" using s1 by simp
    show "\<forall>c\<in>set s2. is_space U c" using s2 by simp
    show "kw = py_str ''var'' \<or> kw = py_str ''final''" using kw by auto
    show "s3 \<noteq> []" using s3 by auto
    show "\<forall>c\<in>set s3. is_space U c" using s3 by simp
    show "idn \<noteq> []" using idn by auto
    show "\<forall>c\<in>set idn. is_word U c" using idn by simp
    show "s4 \<noteq> []" using s4 by auto
    show "\<forall>c\<in>set s4. is_space U c" using s4 by simp
    show "s5 \<noteq> []" using s5 by auto
    show "\<forall>c\<in>set s5. is_space U c" using s5 by simp
    show "it \<noteq> []" using it by auto
    show "41 \<notin> set it" using it by auto
  qed
qed

lemma search_ident_ws_in:
  assumes "re_search U pattern s = Some m"
  shows "ident_ws_in U s"
proof -
  from re_search_SomeD [OF assms] obtain p t where s: "s = p @ t"
    and fm: "first_match U pattern t = Some m" by blast
  from first_match_SomeD [OF fm] obtain w s' where t: "t = w @ s'" and w: "w \<in> lang U pattern"
    by blast
  from w obtain s1 s2 kw s3 idn s4 s5 it where
    eq: "w = py_str ''for'' @ s1 @ py_str ''('' @ s2 @ kw @ s3 @ idn @ s4 @ py_str ''in'' @ s5 @ it @ py_str '')''"
    and idn: "idn \<noteq> []" "\<forall>c\<in>set idn. is_word U c"
    and s4: "s4 \<noteq> []" "\<forall>c\<in>set s4. is_space U c"
    by (rule lang_patternE)
  have split: "s = (p @ py_str ''for'' @ s1 @ py_str ''('' @ s2 @ kw @ s3) @ idn @ s4 @ py_str ''in''
              @ (s5 @ it @ py_str '')'' @ s')"
    using s t eq by simp
  show ?thesis unfolding split by (rule ident_ws_inI [OF idn s4])
qed

section \<open>The script on its two literals\<close>

lemmas unfold_texts = text_py_def iterable_text_def py_str_def sq_def
lemmas unfold_match = pattern_def split_pattern_def first_match_def re_match_def
  is_space_def is_word_def is_alnum_def

lemma search_text:
  "re_search U pattern text_py =
     Some \<lparr>whole = py_str ''for (var char in 'hello'.split('' @ sq @ sq @ py_str '')'',
           captured = [1 \<mapsto> py_str ''var'', 2 \<mapsto> py_str ''char'',
                       3 \<mapsto> sq @ py_str ''hello'.split('' @ sq @ sq],
           ngroups = 3\<rparr>"
  by (simp add: unfold_texts unfold_match)

lemma match_iterable_text:
  "re_match U split_pattern iterable_text =
     Some \<lparr>whole = iterable_text, captured = Map.empty, ngroups = 0\<rparr>"
  by (simp add: unfold_texts unfold_match)

lemma report_foreach_text:
  "report_foreach U text_py out = Inr (out @
     [py_str ''Full match: '' @ sq @ py_str ''for (var char in 'hello'.split('' @ sq @ sq @ py_str '')'' @ sq,
      py_str ''Keyword: '' @ sq @ py_str ''var'' @ sq,
      py_str ''Variable: '' @ sq @ py_str ''char'' @ sq,
      py_str ''Iterable: '' @ sq @ sq @ py_str ''hello'.split('' @ sq @ sq @ sq])"
  by (simp add: report_foreach_def search_text group_def then_do_def print_def fstr_def Let_def)

lemma report_split_text:
  "report_split U iterable_text out = Inr (out @
     [py_str ''Split pattern matches: '' @ sq @ iterable_text @ sq @ py_str '' -> should return String''])"
  by (simp add: report_split_def match_iterable_text print_def)

lemma debug_regex_out:
  "debug_regex U out = Inr (out @
     [py_str ''Full match: '' @ sq @ py_str ''for (var char in 'hello'.split('' @ sq @ sq @ py_str '')'' @ sq,
      py_str ''Keyword: '' @ sq @ py_str ''var'' @ sq,
      py_str ''Variable: '' @ sq @ py_str ''char'' @ sq,
      py_str ''Iterable: '' @ sq @ sq @ py_str ''hello'.split('' @ sq @ sq @ sq,
      py_str ''Split pattern matches: '' @ sq @ sq @ py_str ''hello'.split('' @ sq @ sq @ py_str '')'' @ sq @
        py_str '' -> should return String''])"
  by (simp add: debug_regex_def script_def report_foreach_text report_split_text then_do_def)
     (simp add: iterable_text_def)

section \<open>The first test\<close>

text \<open>
  C1, as the code has it: the search for \<open>pattern\<close> in \<open>text\<close> finds a match with
  keyword \<open>var\<close> and variable \<open>char\<close>. Group 3 cannot hold a closing parenthesis, so
  the iterable stops before the first one: it is \<open>'hello'.split(''\<close>, and the whole
  match is \<open>for (var char in 'hello'.split('')\<close>, with one closing parenthesis.
\<close>

theorem foreach_groups:
  "\<exists>m. re_search U pattern text_py = Some m
     \<and> group m 0 = Inr (Some (py_str ''for (var char in 'hello'.split('' @ sq @ sq @ py_str '')''))
     \<and> group m 1 = Inr (Some (py_str ''var''))
     \<and> group m 2 = Inr (Some (py_str ''char''))
     \<and> group m 3 = Inr (Some (sq @ py_str ''hello'.split('' @ sq @ sq))"
  by (simp add: search_text group_def)

theorem foreach_groups_witness:
  "\<exists>m. re_search ascii_ucd pattern text_py = Some m
     \<and> group m 0 = Inr (Some (py_str ''for (var char in 'hello'.split('' @ sq @ sq @ py_str '')''))
     \<and> group m 1 = Inr (Some (py_str ''var''))
     \<and> group m 2 = Inr (Some (py_str ''char''))
     \<and> group m 3 = Inr (Some (sq @ py_str ''hello'.split('' @ sq @ sq))"
  by (rule foreach_groups [of ascii_ucd])

text \<open>
  C1 as the specification words it has the iterable \<open>'hello'.split('')\<close> and the whole
  match end in two closing parentheses: neither is what the search returns.
\<close>

theorem foreach_groups_counterexample:
  "group (the (re_search ascii_ucd pattern text_py)) 0
      \<noteq> Inr (Some (py_str ''for (var char in 'hello'.split('' @ sq @ sq @ py_str ''))''))
   \<and> group (the (re_search ascii_ucd pattern text_py)) 3
      \<noteq> Inr (Some (sq @ py_str ''hello'.split('' @ sq @ sq @ py_str '')''))"
  by (simp add: search_text group_def) (simp add: py_str_def sq_def)

text \<open>
  C5: a text with no identifier followed by whitespace and the token \<open>in\<close> is not
  matched by \<open>pattern\<close> anywhere.
\<close>

theorem no_ident_in_no_match:
  assumes "\<not> ident_ws_in U s"
  shows "re_search U pattern s = None"
proof (cases "re_search U pattern s")
  case None then show ?thesis .
next
  case (Some m)
  from search_ident_ws_in [OF this] assms show ?thesis by simp
qed

theorem no_ident_in_no_match_witness:
  "\<not> ident_ws_in ascii_ucd (py_str ''for (var x of xs) {}'') \<and>
   re_search ascii_ucd pattern (py_str ''for (var x of xs) {}'') = None"
proof -
  have h: "\<not> ident_ws_in ascii_ucd (py_str ''for (var x of xs) {}'')"
    by (simp add: py_str_def ws_in_here_def starts_with_def is_word_def is_alnum_def
        is_space_def ascii_ucd_def)
  from no_ident_in_no_match [OF h] h show ?thesis by simp
qed



section \<open>The second test\<close>

text \<open>C3: \<open>split_pattern\<close> matches \<open>iterable_text\<close> at position zero, and all of it.\<close>

theorem split_matches:
  "\<exists>m. re_match U split_pattern iterable_text = Some m \<and> whole m = iterable_text"
  by (simp add: match_iterable_text)

theorem split_matches_witness:
  "\<exists>m. re_match ascii_ucd split_pattern iterable_text = Some m \<and> whole m = iterable_text"
  by (rule split_matches [of ascii_ucd])

text \<open>
  C4: a text in which \<open>.split(\<close> does not occur is not matched by \<open>split_pattern\<close>
  at position zero.
\<close>

theorem no_split_no_match:
  assumes "occurrences (py_str ''.split('') s = []"
  shows "re_match U split_pattern s = None"
proof (cases "re_match U split_pattern s")
  case None then show ?thesis .
next
  case (Some m)
  from split_match_occurrence [OF this] assms show ?thesis by simp
qed

theorem no_split_no_match_witness:
  "occurrences (py_str ''.split('') (py_str ''a,split(b)'') = [] \<and>
   re_match ascii_ucd split_pattern (py_str ''a,split(b)'') = None"
proof -
  have h: "occurrences (py_str ''.split('') (py_str ''a,split(b)'') = []"
    by (simp add: occurrences_def starts_with_def py_str_def)
  from no_split_no_match [OF h] h show ?thesis by simp
qed

text \<open>
  C10: a text whose only occurrence of \<open>.split(\<close> is at position zero, with nothing
  before it, is not matched by \<open>split_pattern\<close>.
\<close>

theorem empty_receiver_no_match:
  assumes "occurrences (py_str ''.split('') s = [0]"
  shows "re_match U split_pattern s = None"
proof (cases "re_match U split_pattern s")
  case None then show ?thesis .
next
  case (Some m)
  from split_match_occurrence [OF this] assms show ?thesis by simp
qed

theorem empty_receiver_no_match_witness:
  "occurrences (py_str ''.split('') (py_str ''.split(x)'') = [0] \<and>
   re_match ascii_ucd split_pattern (py_str ''.split(x)'') = None"
proof -
  have h: "occurrences (py_str ''.split('') (py_str ''.split(x)'') = [0]"
    by (simp add: occurrences_def starts_with_def py_str_def)
  from empty_receiver_no_match [OF h] h show ?thesis by simp
qed

text \<open>
  C6: some text goes on after a closing parenthesis and is matched all the same:
  the match is a prefix that ends at that parenthesis, and what follows is left over.
\<close>

theorem trailing:
  "\<exists>s m rest. re_match U split_pattern s = Some m \<and> s = whole m @ rest \<and> rest \<noteq> []
      \<and> whole m \<noteq> [] \<and> last (whole m) = 41"
proof -
  have "re_match U split_pattern (py_str ''a.split(b) + c'')
          = Some \<lparr>whole = py_str ''a.split(b)'', captured = Map.empty, ngroups = 0\<rparr>"
    by (simp add: unfold_texts unfold_match)
  moreover have "py_str ''a.split(b) + c'' = py_str ''a.split(b)'' @ py_str '' + c''"
    by (simp add: py_str_def)
  moreover have "py_str '' + c'' \<noteq> []" "py_str ''a.split(b)'' \<noteq> []" "last (py_str ''a.split(b)'') = 41"
    by (simp_all add: py_str_def)
  ultimately show ?thesis by (metis match_obj.select_convs(1))
qed

theorem trailing_witness:
  "\<exists>s m rest. re_match ascii_ucd split_pattern s = Some m \<and> s = whole m @ rest \<and> rest \<noteq> []
      \<and> whole m \<noteq> [] \<and> last (whole m) = 41"
  by (rule trailing [of ascii_ucd])

section \<open>The whole script\<close>

text \<open>
  C2: the script prints five lines: the whole match, the keyword, the variable and
  the iterable of the first test, each between single quotes after its label, and
  then the line of the second test for \<open>'hello'.split('')\<close>.
\<close>

theorem script_output:
  "debug_regex U [] = Inr
     [py_str ''Full match: '' @ sq @ py_str ''for (var char in 'hello'.split('' @ sq @ sq @ py_str '')'' @ sq,
      py_str ''Keyword: '' @ sq @ py_str ''var'' @ sq,
      py_str ''Variable: '' @ sq @ py_str ''char'' @ sq,
      py_str ''Iterable: '' @ sq @ sq @ py_str ''hello'.split('' @ sq @ sq @ sq,
      py_str ''Split pattern matches: '' @ sq @ sq @ py_str ''hello'.split('' @ sq @ sq @ py_str '')'' @ sq @
        py_str '' -> should return String'']"
  by (simp add: debug_regex_out)

theorem script_output_witness:
  "debug_regex ascii_ucd [] = Inr
     [py_str ''Full match: '' @ sq @ py_str ''for (var char in 'hello'.split('' @ sq @ sq @ py_str '')'' @ sq,
      py_str ''Keyword: '' @ sq @ py_str ''var'' @ sq,
      py_str ''Variable: '' @ sq @ py_str ''char'' @ sq,
      py_str ''Iterable: '' @ sq @ sq @ py_str ''hello'.split('' @ sq @ sq @ sq,
      py_str ''Split pattern matches: '' @ sq @ sq @ py_str ''hello'.split('' @ sq @ sq @ py_str '')'' @ sq @
        py_str '' -> should return String'']"
  by (rule script_output [of ascii_ucd])

section \<open>The closing parenthesis of a match\<close>

lemma seq_tailD:
  "x \<in> set (rx_match U (Seq a b) st) \<Longrightarrow> \<exists>y. x \<in> set (rx_match U b y)"
  by auto

lemma seq_memD:
  "x \<in> set (rx_match U (Seq a b) st) \<Longrightarrow> \<exists>y\<in>set (rx_match U a st). x \<in> set (rx_match U b y)"
  by auto

lemma subpattern_memD:
  "(t, h) \<in> set (rx_match U (Subpattern n r) (s, g)) \<Longrightarrow>
     \<exists>h0. (t, h0) \<in> set (rx_match U r (s, g)) \<and> h = h0(n \<mapsto> take (length s - length t) s)"
  by auto

lemma max_repeat_memD:
  "(t, h) \<in> set (rx_match U (Max_Repeat mn cs) (s, g)) \<Longrightarrow>
     \<exists>k. mn \<le> k \<and> k \<le> length (takeWhile (cs_mem U cs) s) \<and> t = drop k s \<and> h = g"
  by auto

lemma lits_memD:
  "(t, h) \<in> set (rx_match U (Lits w) (s, g)) \<Longrightarrow> h = g"
  by (auto split: if_splits)

lemma group3_tail:
  assumes "(s', g') \<in> set (rx_match U (Seq (Subpattern 3 (Max_Repeat 1 (Not_Literal 41))) (Lits (py_str '')''))) y)"
  shows "\<exists>it. g' 3 = Some it \<and> 41 \<notin> set it"
proof -
  obtain t0 g0 where y: "y = (t0, g0)" by (cases y)
  from seq_memD [OF assms] obtain t h where
    1: "(t, h) \<in> set (rx_match U (Subpattern 3 (Max_Repeat 1 (Not_Literal 41))) (t0, g0))"
    and 2: "(s', g') \<in> set (rx_match U (Lits (py_str '')'')) (t, h))"
    unfolding y by (metis surj_pair)
  from lits_memD [OF 2] have g': "g' = h" .
  from subpattern_memD [OF 1] obtain h0 where
    3: "(t, h0) \<in> set (rx_match U (Max_Repeat 1 (Not_Literal 41)) (t0, g0))"
    and h: "h = h0(3 \<mapsto> take (length t0 - length t) t0)" by blast
  from max_repeat_memD [OF 3] obtain k where
    k: "k \<le> length (takeWhile (cs_mem U (Not_Literal 41)) t0)" and t: "t = drop k t0" by blast
  have "k \<le> length t0"
    using k length_takeWhile_le [of "cs_mem U (Not_Literal 41)" t0] by linarith
  then have "length t0 - length t = k" using t by simp
  with h g' have "g' 3 = Some (take k t0)" by simp
  moreover have "41 \<notin> set (take k t0)" using take_run [OF k] by auto
  ultimately show ?thesis by blast
qed

lemma pattern_group3:
  assumes "(s', g') \<in> set (rx_match U pattern st)"
  shows "\<exists>it. g' 3 = Some it \<and> 41 \<notin> set it"
proof -
  from assms have "\<exists>y. (s', g') \<in> set (rx_match U
      (Seq (Subpattern 3 (Max_Repeat 1 (Not_Literal 41))) (Lits (py_str '')''))) y)"
    unfolding pattern_def seqs.simps by (blast dest: seq_tailD)
  then show ?thesis by (blast dest: group3_tail)
qed

lemma not_space_rparen: "\<not> is_space U 41"
  by (simp add: is_space_def)

lemma not_word_rparen: "\<not> is_word U 41"
  by (simp add: is_word_def is_alnum_def)

lemma lang_pattern_rparen:
  assumes "w \<in> lang U pattern"
  shows "count_list w 41 = 1 \<and> last w = 41"
proof -
  from assms obtain s1 s2 kw s3 idn s4 s5 it where
    eq: "w = py_str ''for'' @ s1 @ py_str ''('' @ s2 @ kw @ s3 @ idn @ s4 @ py_str ''in'' @ s5 @ it @ py_str '')''"
    and sp: "\<forall>c\<in>set s1. is_space U c" "\<forall>c\<in>set s2. is_space U c" "\<forall>c\<in>set s3. is_space U c"
       "\<forall>c\<in>set s4. is_space U c" "\<forall>c\<in>set s5. is_space U c"
    and kw: "kw = py_str ''var'' \<or> kw = py_str ''final''"
    and idn: "\<forall>c\<in>set idn. is_word U c"
    and it: "41 \<notin> set it"
    by (rule lang_patternE)
  from sp not_space_rparen have "41 \<notin> set s1" "41 \<notin> set s2" "41 \<notin> set s3" "41 \<notin> set s4" "41 \<notin> set s5"
    by blast+
  moreover from idn not_word_rparen have "41 \<notin> set idn" by blast
  moreover from kw have "41 \<notin> set kw" by (auto simp: py_str_def)
  ultimately have "count_list w 41 = 1" using it eq by (simp add: py_str_def)
  moreover have "last w = 41" using eq by (simp add: py_str_def)
  ultimately show ?thesis by simp
qed

text \<open>
  C9: whenever the search for \<open>pattern\<close> finds a match, group 3 holds no closing
  parenthesis, and the whole match holds exactly one, as its last character.
\<close>

theorem one_rparen:
  assumes "re_search U pattern s = Some m"
  shows "(\<exists>it. group m 3 = Inr (Some it) \<and> 41 \<notin> set it)
       \<and> count_list (whole m) 41 = 1 \<and> last (whole m) = 41"
proof -
  from re_search_SomeD [OF assms] obtain p t where "s = p @ t"
    and fm: "first_match U pattern t = Some m" by blast
  from first_match_SomeD [OF fm] obtain w s' where w: "w \<in> lang U pattern" "whole m = w"
    and n: "ngroups m = groups pattern"
    and mem: "(s', captured m) \<in> set (rx_match U pattern (t, Map.empty))" by blast
  from pattern_group3 [OF mem] obtain it where "captured m 3 = Some it" "41 \<notin> set it" by blast
  moreover from n have "ngroups m = 3" by (simp add: pattern_def)
  ultimately have "\<exists>it. group m 3 = Inr (Some it) \<and> 41 \<notin> set it" by (simp add: group_def)
  with lang_pattern_rparen [OF w(1)] w(2) show ?thesis by simp
qed

theorem one_rparen_witness:
  "re_search ascii_ucd pattern text_py \<noteq> None
     \<and> (\<exists>it. group (the (re_search ascii_ucd pattern text_py)) 3 = Inr (Some it) \<and> 41 \<notin> set it)
     \<and> count_list (whole (the (re_search ascii_ucd pattern text_py))) 41 = 1
     \<and> last (whole (the (re_search ascii_ucd pattern text_py))) = 41"
proof -
  obtain m where m: "re_search ascii_ucd pattern text_py = Some m"
    using search_text by blast
  from one_rparen [OF m] m show ?thesis by simp
qed

end
